theory Spec2Isabelle
  imports Complex_Main "HOL-Library.Word"
begin

section \<open>JavaScript strings\<close>

text \<open>
  A JavaScript string is a sequence of UTF-16 code units; \<open>length\<close>, \<open>substring\<close>,
  \<open>split\<close> and \<open>trim\<close> all count and compare code units. The Worker's texts are
  therefore lists of 16-bit words.
\<close>

type_synonym jschar = "16 word"
type_synonym jsstring = "jschar list"

text \<open>An ASCII literal of the source, as code units.\<close>

definition js :: "string \<Rightarrow> jsstring" where
  "js s = map (\<lambda>c. of_nat (of_char c)) s"

text \<open>
  The character class of the regular expression in \<open>smartChunkText\<close>:
  the ASCII marks \<^verbatim>\<open>. ? ! , ; :\<close>, line feed, carriage return and the full-width
  marks U+3002, U+FF1F, U+FF01, U+FF0C, U+FF1B, U+FF1A.
\<close>

definition is_delim :: "jschar \<Rightarrow> bool" where
  "is_delim c \<longleftrightarrow> c \<in> set [0x2E, 0x3F, 0x21, 0x2C, 0x3B, 0x3A, 0x0A,
     0x3002, 0xFF1F, 0xFF01, 0xFF0C, 0xFF1B, 0xFF1A, 0x0D]"

text \<open>
  What \<open>String.prototype.trim\<close> removes: the WhiteSpace and LineTerminator code points of
  ECMAScript (tab, vertical tab, form feed, space, no-break space, the byte order mark,
  the Unicode space separators, line feed, carriage return, U+2028 and U+2029).
\<close>

definition is_ws :: "jschar \<Rightarrow> bool" where
  "is_ws c \<longleftrightarrow> c \<in> set [0x09, 0x0A, 0x0B, 0x0C, 0x0D, 0x20, 0xA0, 0x1680,
     0x2000, 0x2001, 0x2002, 0x2003, 0x2004, 0x2005, 0x2006, 0x2007, 0x2008, 0x2009, 0x200A,
     0x2028, 0x2029, 0x202F, 0x205F, 0x3000, 0xFEFF]"

definition trim :: "jsstring \<Rightarrow> jsstring" where
  "trim s = rev (dropWhile is_ws (rev (dropWhile is_ws s)))"

text \<open>
  \<open>s.substring(a, b)\<close>: both indices are clamped to \<open>0 .. length s\<close> and swapped when
  the first is the larger.
\<close>

definition clamp_index :: "nat \<Rightarrow> int \<Rightarrow> nat" where
  "clamp_index n i = (if i < 0 then 0 else min (nat i) n)"

definition substring :: "jsstring \<Rightarrow> int \<Rightarrow> int \<Rightarrow> jsstring" where
  "substring s a b =
     (let a' = clamp_index (length s) a; b' = clamp_index (length s) b;
          lo = min a' b'; hi = max a' b'
      in take (hi - lo) (drop lo s))"

text \<open>
  \<open>text.split(/([...]+)/g)\<close>: the separators are the maximal runs of delimiter code
  units, and because the run is a capturing group each separator is kept in the result,
  between the pieces it separates. The result alternates piece, run, piece, ..., piece;
  the first and the last piece are empty when the text begins or ends with a run.
\<close>

function split_sentences :: "jsstring \<Rightarrow> jsstring list" where
  "split_sentences s =
     (let piece = takeWhile (\<lambda>c. \<not> is_delim c) s;
          rest = dropWhile (\<lambda>c. \<not> is_delim c) s
      in if rest = [] then [piece]
         else piece # takeWhile is_delim rest # split_sentences (dropWhile is_delim rest))"
  by pat_completeness auto
termination
proof (relation "measure length")
  fix s :: jsstring and piece rest
  assume rest: "rest = dropWhile (\<lambda>c. \<not> is_delim c) s" and ne: "rest \<noteq> []"
  from ne have "is_delim (hd rest)"
    unfolding rest using hd_dropWhile [of "\<lambda>c. \<not> is_delim c" s] by simp
  with ne have "length (dropWhile is_delim rest) < length rest"
    by (cases rest) (auto simp: le_imp_less_Suc length_dropWhile_le)
  also have "length rest \<le> length s"
    unfolding rest by (rule length_dropWhile_le)
  finally show "(dropWhile is_delim rest, s) \<in> measure length" by simp
qed simp

declare split_sentences.simps [simp del]

section \<open>The segmenter: smartChunkText\<close>

text \<open>
  One pass of the \<open>for (const part of sentences)\<close> loop. The state is the pair of
  \<open>chunks\<close> and \<open>currentChunk\<close>; \<open>maxChunkLength\<close> comes from the request body
  unchecked and is an integer of either sign.
\<close>

definition push_trimmed :: "jsstring list \<Rightarrow> jsstring \<Rightarrow> jsstring list" where
  "push_trimmed chunks currentChunk =
     (if trim currentChunk \<noteq> [] then chunks @ [trim currentChunk] else chunks)"

fun chunk_step :: "int \<Rightarrow> jsstring list \<times> jsstring \<Rightarrow> jsstring \<Rightarrow> jsstring list \<times> jsstring" where
  "chunk_step maxChunkLength (chunks, currentChunk) part =
     (if int (length currentChunk) + int (length part) \<le> maxChunkLength
      then (chunks, currentChunk @ part)
      else (push_trimmed chunks currentChunk, part))"

text \<open>The chunks after the boundary-aware pass and its final flush (source lines 266-277).\<close>

definition boundary_chunks :: "jsstring \<Rightarrow> int \<Rightarrow> jsstring list" where
  "boundary_chunks text maxChunkLength =
     (case foldl (chunk_step maxChunkLength) ([], []) (split_sentences text) of
        (chunks, currentChunk) \<Rightarrow> push_trimmed chunks currentChunk)"

text \<open>
  The fallback loop \<open>for (let i = 0; i < text.length; i += maxChunkLength)\<close>. With
  \<open>maxChunkLength \<le> 0\<close> the index never passes the length and the loop does not return:
  the value \<open>None\<close>.
\<close>

partial_function (option) slice_loop ::
  "jsstring \<Rightarrow> int \<Rightarrow> int \<Rightarrow> jsstring list \<Rightarrow> jsstring list option" where
  "slice_loop text maxChunkLength i chunks =
     (if i < int (length text)
      then slice_loop text maxChunkLength (i + maxChunkLength)
             (chunks @ [substring text i (i + maxChunkLength)])
      else Some chunks)"

declare slice_loop.simps [code]

definition smartChunkText :: "jsstring \<Rightarrow> int \<Rightarrow> jsstring list option" where
  "smartChunkText text maxChunkLength =
     (if text = [] then Some []
      else let chunks = boundary_chunks text maxChunkLength
           in if chunks = [] \<and> length text > 0
              then map_option (filter (\<lambda>c. length c > 0)) (slice_loop text maxChunkLength 0 chunks)
              else Some (filter (\<lambda>c. length c > 0) chunks))"

text \<open>
  Whitespace normalisation, for comparing the chunks with the input: every code unit
  that \<open>trim\<close> may remove is deleted, so that two texts are equal after it exactly when
  they have the same non-whitespace code units in the same order.
\<close>

definition strip_ws :: "jsstring \<Rightarrow> jsstring" where
  "strip_ws s = filter (\<lambda>c. \<not> is_ws c) s"

section \<open>The markup payload: getSsml\<close>

text \<open>
  \<open>s.replace(/c/g, rep)\<close> for a one-character pattern: every occurrence of the code unit
  is replaced by the replacement string.
\<close>

definition replace_all :: "jschar \<Rightarrow> jsstring \<Rightarrow> jsstring \<Rightarrow> jsstring" where
  "replace_all c rep s = concat (map (\<lambda>x. if x = c then rep else [x]) s)"

text \<open>
  Source line 260. The three replacement strings are, in the source, the very characters
  they replace: \<^verbatim>\<open>.replace(/&/g, '&').replace(/</g, '<').replace(/>/g, '>')\<close>.
\<close>

definition sanitizedText :: "jsstring \<Rightarrow> jsstring" where
  "sanitizedText text =
     replace_all 0x3E (js ''>'') (replace_all 0x3C (js ''<'') (replace_all 0x26 (js ''&'') text))"

text \<open>The template of source line 261; \<open>dq\<close> is the double quote.\<close>

definition dq :: jsstring where
  "dq = [0x22]"

definition getSsml :: "jsstring \<Rightarrow> jsstring \<Rightarrow> jsstring \<Rightarrow> jsstring \<Rightarrow> jsstring \<Rightarrow> jsstring" where
  "getSsml text voiceName rate pitch style =
     js ''<speak xmlns='' @ dq @ js ''http://www.w3.org/2001/10/synthesis'' @ dq @
     js '' xmlns:mstts='' @ dq @ js ''http://www.w3.org/2001/mstts'' @ dq @
     js '' version='' @ dq @ js ''1.0'' @ dq @ js '' xml:lang='' @ dq @ js ''en-US'' @ dq @
     js ''><voice name='' @ dq @ voiceName @ dq @
     js ''><mstts:express-as style='' @ dq @ style @ dq @
     js ''><prosody rate='' @ dq @ rate @ js ''%'' @ dq @ js '' pitch='' @ dq @ pitch @ js ''%'' @ dq @
     js ''>'' @ sanitizedText text @ js ''</prosody></mstts:express-as></voice></speak>''"

section \<open>The credential cache: getEndpoint\<close>

text \<open>
  What the identity service returns (\<open>data\<close>): the region \<open>r\<close> and the token \<open>t\<close>.
\<close>

datatype endpoint_data = EndpointData (endpoint_r: jsstring) (endpoint_t: jsstring)

text \<open>
  The module-level \<open>tokenInfo\<close>; \<open>None\<close> is JavaScript's \<open>null\<close> (or \<open>undefined\<close>, for
  an expiry the token's claims do not carry). Times are seconds, as real numbers.
\<close>

record token_info =
  endpoint :: "endpoint_data option"
  token :: "jsstring option"
  expiredAt :: "real option"

definition initial_tokenInfo :: token_info where
  "initial_tokenInfo = \<lparr>endpoint = None, token = None, expiredAt = None\<rparr>"

definition TOKEN_REFRESH_BEFORE_EXPIRY :: real where
  "TOKEN_REFRESH_BEFORE_EXPIRY = 5 * 60"

text \<open>
  The process state \<open>getEndpoint\<close> reads and writes: the cache, and the number of
  requests sent to the identity service so far.
\<close>

record world =
  tokenInfo :: token_info
  fetches :: nat

datatype error =
    FetchRejected
  | EndpointStatus nat
  | EndpointReplyMalformed
  | TtsApiError nat

text \<open>
  The reply of the identity service to one request: \<open>response.ok\<close>, \<open>response.status\<close>
  and what lines 209-211 make of the body, namely \<open>data\<close> and \<open>decodedJwt.exp\<close>, or
  \<open>None\<close> when \<open>response.json()\<close>, \<open>split\<close>, \<open>atob\<close> or \<open>JSON.parse\<close> throws.
\<close>

datatype endpoint_reply =
  EndpointReply (reply_ok: bool) (reply_status: nat)
    (reply_body: "(endpoint_data \<times> real option) option")

text \<open>JavaScript truthiness of a string or null, and of a number or undefined.\<close>

definition truthy_string :: "jsstring option \<Rightarrow> bool" where
  "truthy_string s = (case s of None \<Rightarrow> False | Some v \<Rightarrow> v \<noteq> [])"

definition truthy_number :: "real option \<Rightarrow> bool" where
  "truthy_number x = (case x of None \<Rightarrow> False | Some v \<Rightarrow> v \<noteq> 0)"

text \<open>The test of source line 200.\<close>

definition cache_fresh :: "real \<Rightarrow> token_info \<Rightarrow> bool" where
  "cache_fresh now ti \<longleftrightarrow>
     truthy_string (token ti) \<and> truthy_number (expiredAt ti) \<and>
     (case expiredAt ti of None \<Rightarrow> False | Some e \<Rightarrow> now < e - TOKEN_REFRESH_BEFORE_EXPIRY)"

text \<open>
  The \<open>try\<close> block up to line 211: the request is rejected (\<open>Inl\<close> of the network
  outcome), or answered with a status that is not ok, or with a body that does not decode.
\<close>

definition try_refresh :: "error + endpoint_reply \<Rightarrow> error + endpoint_data \<times> real option" where
  "try_refresh net =
     (case net of
        Inl e \<Rightarrow> Inl e
      | Inr reply \<Rightarrow>
          if \<not> reply_ok reply then Inl (EndpointStatus (reply_status reply))
          else (case reply_body reply of
                  None \<Rightarrow> Inl EndpointReplyMalformed
                | Some (data, expiry) \<Rightarrow> Inr (data, expiry)))"

text \<open>
  \<open>getEndpoint\<close>, given the outcome \<open>net\<close> that a request to the identity service would
  have and the clock \<open>now\<close> (\<open>Date.now() / 1000\<close>). The result is the returned endpoint
  (\<open>tokenInfo.endpoint\<close> may be null) or the error thrown, with the state afterwards.
\<close>

definition getEndpoint ::
  "error + endpoint_reply \<Rightarrow> real \<Rightarrow> world \<Rightarrow> (error + endpoint_data option) \<times> world" where
  "getEndpoint net now w =
     (if cache_fresh now (tokenInfo w) then (Inr (endpoint (tokenInfo w)), w)
      else
        (case try_refresh net of
           Inr (data, expiry) \<Rightarrow>
             (Inr (Some data),
              w\<lparr>tokenInfo := \<lparr>endpoint = Some data, token = Some (endpoint_t data), expiredAt = expiry\<rparr>,
                fetches := fetches w + 1\<rparr>)
         | Inl e \<Rightarrow>
             if truthy_string (token (tokenInfo w))
             then (Inr (endpoint (tokenInfo w)), w\<lparr>fetches := fetches w + 1\<rparr>)
             else (Inl e, w\<lparr>fetches := fetches w + 1\<rparr>)))"

section \<open>The batch pipeline: getVoice, pipeChunksToStream, streamVoice\<close>

type_synonym blob = "8 word list"

text \<open>
  What a run does, in the order it does it: the call \<open>getAudioChunk\<close> for the chunk at an
  index of the chunk list is started, the \<open>await\<close> of a batch's \<open>Promise.all\<close> returns,
  a chunk of bytes is handed to the writer, the writer is aborted, the writer is closed,
  the \<open>Response\<close> is returned to the caller.
\<close>

datatype event =
    Dispatch nat
  | BatchAwaited
  | Write blob
  | Abort error
  | Close
  | Respond

datatype response =
    AudioResponse blob
  | ReadableResponse "blob list"
  | ErrorResponse error nat string

text \<open>
  \<open>Promise.all\<close> over the promises of one batch. \<open>ps\<close> holds the outcome each promise
  settles with; the promises settle one at a time in the order \<open>ks\<close>. A fulfilled promise
  stores its value in the slot of its own position; the first rejected one rejects the
  whole. The order is that of the calls' latencies (equal latencies in call order), so
  every order of completion is the order of some latency function.
\<close>

fun settle_in_order :: "(error + 'a) list \<Rightarrow> nat list \<Rightarrow> 'a option list \<Rightarrow> error + 'a option list" where
  "settle_in_order ps [] vals = Inr vals"
| "settle_in_order ps (k # ks) vals =
     (case ps ! k of Inl e \<Rightarrow> Inl e | Inr v \<Rightarrow> settle_in_order ps ks (vals[k := Some v]))"

definition completion_order :: "(nat \<Rightarrow> nat) \<Rightarrow> nat \<Rightarrow> nat list" where
  "completion_order latency n = sort_key latency [0..<n]"

text \<open>\<open>None\<close>: some slot is never filled and the combined promise never settles.\<close>

definition promise_all :: "(nat \<Rightarrow> nat) \<Rightarrow> (error + 'a) list \<Rightarrow> (error + 'a list) option" where
  "promise_all latency ps =
     (case settle_in_order ps (completion_order latency (length ps)) (replicate (length ps) None) of
        Inl e \<Rightarrow> Some (Inl e)
      | Inr vals \<Rightarrow> map_option Inr (those vals))"

text \<open>
  \<open>xs.slice(start, end)\<close> on a list of length \<open>n\<close>: a negative index counts from the end,
  both are clamped to \<open>0 .. n\<close>, and the slice is empty when the end is not after the start.
\<close>

definition rel_index :: "nat \<Rightarrow> int \<Rightarrow> nat" where
  "rel_index n k = (if k < 0 then nat (max (int n + k) 0) else min (nat k) n)"

definition slice_indices :: "nat \<Rightarrow> int \<Rightarrow> int \<Rightarrow> nat list" where
  "slice_indices n start end = [rel_index n start ..< rel_index n end]"

text \<open>
  One batch: \<open>chunks.slice(i, i + concurrency)\<close>, \<open>batch.map(chunk => getAudioChunk(...))\<close>
  and \<open>await Promise.all(audioPromises)\<close>. \<open>call j chunk\<close> is the outcome with which the
  promise of \<open>getAudioChunk\<close> for the chunk at index \<open>j\<close> settles, and \<open>latency j\<close> the time
  it takes. \<open>concurrency\<close> is the integer of the request body (the specification's
  integer with default 10), taken unchecked and of either sign; on whole numbers the
  arithmetic of JavaScript numbers is exact and \<open>slice\<close> truncates nothing. The model does
  not cover a request whose concurrency is not a whole number.
\<close>

definition batch_indices :: "jsstring list \<Rightarrow> int \<Rightarrow> int \<Rightarrow> nat list" where
  "batch_indices chunks concurrency i = slice_indices (length chunks) i (i + concurrency)"

definition await_batch ::
  "(nat \<Rightarrow> jsstring \<Rightarrow> error + blob) \<Rightarrow> (nat \<Rightarrow> nat) \<Rightarrow> jsstring list \<Rightarrow> nat list \<Rightarrow>
   (error + blob list) option" where
  "await_batch call latency chunks idxs =
     promise_all (\<lambda>p. latency (idxs ! p)) (map (\<lambda>j. call j (chunks ! j)) idxs)"

text \<open>
  The loop of \<open>getVoice\<close> (source lines 159-165), from index \<open>i\<close> with the blobs collected
  and the events so far. \<open>None\<close>: the loop does not return.
\<close>

partial_function (option) getVoice_loop ::
  "(nat \<Rightarrow> jsstring \<Rightarrow> error + blob) \<Rightarrow> (nat \<Rightarrow> nat) \<Rightarrow> jsstring list \<Rightarrow> int \<Rightarrow> int \<Rightarrow>
   blob list \<Rightarrow> event list \<Rightarrow> ((error + blob list) \<times> event list) option" where
  "getVoice_loop call latency textChunks concurrency i allAudioBlobs trace =
     (if i < int (length textChunks)
      then
        (case await_batch call latency textChunks (batch_indices textChunks concurrency i) of
           None \<Rightarrow> None
         | Some (Inl e) \<Rightarrow>
             Some (Inl e, trace @ map Dispatch (batch_indices textChunks concurrency i) @ [BatchAwaited])
         | Some (Inr audioBlobs) \<Rightarrow>
             getVoice_loop call latency textChunks concurrency (i + concurrency)
               (allAudioBlobs @ audioBlobs)
               (trace @ map Dispatch (batch_indices textChunks concurrency i) @ [BatchAwaited]))
      else Some (Inr allAudioBlobs, trace))"

declare getVoice_loop.simps [code]

definition getVoice ::
  "(nat \<Rightarrow> jsstring \<Rightarrow> error + blob) \<Rightarrow> (nat \<Rightarrow> nat) \<Rightarrow> jsstring list \<Rightarrow> int \<Rightarrow>
   (response \<times> event list) option" where
  "getVoice call latency textChunks concurrency =
     (case getVoice_loop call latency textChunks concurrency 0 [] [] of
        None \<Rightarrow> None
      | Some (Inr allAudioBlobs, trace) \<Rightarrow> Some (AudioResponse (concat allAudioBlobs), trace @ [Respond])
      | Some (Inl e, trace) \<Rightarrow> Some (ErrorResponse e 500 ''tts_generation_error'', trace @ [Respond]))"

text \<open>
  The loop of \<open>pipeChunksToStream\<close> (source lines 137-145): after each batch its blobs are
  handed to the writer, in the order of the batch. The writes are not awaited.
\<close>

partial_function (option) pipe_loop ::
  "(nat \<Rightarrow> jsstring \<Rightarrow> error + blob) \<Rightarrow> (nat \<Rightarrow> nat) \<Rightarrow> jsstring list \<Rightarrow> int \<Rightarrow> int \<Rightarrow>
   event list \<Rightarrow> ((error + unit) \<times> event list) option" where
  "pipe_loop call latency chunks concurrency i trace =
     (if i < int (length chunks)
      then
        (case await_batch call latency chunks (batch_indices chunks concurrency i) of
           None \<Rightarrow> None
         | Some (Inl e) \<Rightarrow>
             Some (Inl e, trace @ map Dispatch (batch_indices chunks concurrency i) @ [BatchAwaited])
         | Some (Inr audioBlobs) \<Rightarrow>
             pipe_loop call latency chunks concurrency (i + concurrency)
               (trace @ map Dispatch (batch_indices chunks concurrency i) @ [BatchAwaited]
                  @ map Write audioBlobs))
      else Some (Inr (), trace))"

declare pipe_loop.simps [code]

text \<open>The \<open>catch\<close> aborts the writer and rethrows; the \<open>finally\<close> closes it on every path.\<close>

definition pipeChunksToStream ::
  "(nat \<Rightarrow> jsstring \<Rightarrow> error + blob) \<Rightarrow> (nat \<Rightarrow> nat) \<Rightarrow> jsstring list \<Rightarrow> int \<Rightarrow>
   ((error + unit) \<times> event list) option" where
  "pipeChunksToStream call latency chunks concurrency =
     (case pipe_loop call latency chunks concurrency 0 [] of
        None \<Rightarrow> None
      | Some (Inl e, trace) \<Rightarrow> Some (Inl e, trace @ [Abort e, Close])
      | Some (Inr u, trace) \<Rightarrow> Some (Inr (), trace @ [Close]))"

text \<open>The bytes handed to the writer: what the readable side of the stream holds.\<close>

fun written :: "event list \<Rightarrow> blob list" where
  "written [] = []"
| "written (Write b # evs) = b # written evs"
| "written (ev # evs) = written evs"

text \<open>
  \<open>streamVoice\<close> awaits \<open>pipeChunksToStream\<close> and only then returns the \<open>Response\<close> over
  the readable side (source lines 125-127).
\<close>

definition streamVoice ::
  "(nat \<Rightarrow> jsstring \<Rightarrow> error + blob) \<Rightarrow> (nat \<Rightarrow> nat) \<Rightarrow> jsstring list \<Rightarrow> int \<Rightarrow>
   (response \<times> event list) option" where
  "streamVoice call latency textChunks concurrency =
     (case pipeChunksToStream call latency textChunks concurrency of
        None \<Rightarrow> None
      | Some (Inr u, trace) \<Rightarrow> Some (ReadableResponse (written trace), trace @ [Respond])
      | Some (Inl e, trace) \<Rightarrow> Some (ErrorResponse e 500 ''tts_generation_error'', trace @ [Respond]))"

text \<open>
  The partition the specification describes: consecutive batches of at most \<open>c\<close> indices
  out of \<open>i ..< n\<close>, the last one possibly smaller.
\<close>

function batches_from :: "nat \<Rightarrow> nat \<Rightarrow> nat \<Rightarrow> nat list list" where
  "batches_from c n i =
     (if 0 < c \<and> i < n then [i ..< min n (i + c)] # batches_from c n (i + c) else [])"
  by pat_completeness auto
termination
  by (relation "measure (\<lambda>(c, n, i). n - i)") auto

declare batches_from.simps [simp del]

text \<open>
  The loop of \<open>getVoice\<close> once more, for a concurrency that is any number: the numbers
  are exact rationals, and \<open>slice\<close> truncates each argument toward zero before it
  clamps it. On whole numbers this is \<open>getVoice_loop\<close> (lemma \<open>getVoice_num_of_int\<close>).
\<close>

definition to_integer :: "rat \<Rightarrow> int" where
  "to_integer q = (if q < 0 then - floor (- q) else floor q)"

definition batch_indices_num :: "jsstring list \<Rightarrow> rat \<Rightarrow> rat \<Rightarrow> nat list" where
  "batch_indices_num chunks concurrency i =
     slice_indices (length chunks) (to_integer i) (to_integer (i + concurrency))"

partial_function (option) getVoice_loop_num ::
  "(nat \<Rightarrow> jsstring \<Rightarrow> error + blob) \<Rightarrow> (nat \<Rightarrow> nat) \<Rightarrow> jsstring list \<Rightarrow> rat \<Rightarrow> rat \<Rightarrow>
   blob list \<Rightarrow> event list \<Rightarrow> ((error + blob list) \<times> event list) option" where
  "getVoice_loop_num call latency textChunks concurrency i allAudioBlobs trace =
     (if i < of_nat (length textChunks)
      then
        (case await_batch call latency textChunks (batch_indices_num textChunks concurrency i) of
           None \<Rightarrow> None
         | Some (Inl e) \<Rightarrow>
             Some (Inl e, trace @ map Dispatch (batch_indices_num textChunks concurrency i) @ [BatchAwaited])
         | Some (Inr audioBlobs) \<Rightarrow>
             getVoice_loop_num call latency textChunks concurrency (i + concurrency)
               (allAudioBlobs @ audioBlobs)
               (trace @ map Dispatch (batch_indices_num textChunks concurrency i) @ [BatchAwaited]))
      else Some (Inr allAudioBlobs, trace))"

declare getVoice_loop_num.simps [code]

definition getVoice_num ::
  "(nat \<Rightarrow> jsstring \<Rightarrow> error + blob) \<Rightarrow> (nat \<Rightarrow> nat) \<Rightarrow> jsstring list \<Rightarrow> rat \<Rightarrow>
   (response \<times> event list) option" where
  "getVoice_num call latency textChunks concurrency =
     (case getVoice_loop_num call latency textChunks concurrency 0 [] [] of
        None \<Rightarrow> None
      | Some (Inr allAudioBlobs, trace) \<Rightarrow> Some (AudioResponse (concat allAudioBlobs), trace @ [Respond])
      | Some (Inl e, trace) \<Rightarrow> Some (ErrorResponse e 500 ''tts_generation_error'', trace @ [Respond]))"


section \<open>Predicates for the length bound\<close>

text \<open>
  A returned chunk is within the bound, or it is one piece of the split, longer than the
  bound and flushed on its own (trimmed). The running buffer is within the bound, or it
  is such a piece.
\<close>


definition chunk_ok :: "int \<Rightarrow> jsstring list \<Rightarrow> jsstring \<Rightarrow> bool" where
  "chunk_ok m parts c \<longleftrightarrow> int (length c) \<le> m \<or> (\<exists>p\<in>set parts. m < int (length p) \<and> c = trim p)"

definition cur_ok :: "int \<Rightarrow> jsstring list \<Rightarrow> jsstring \<Rightarrow> bool" where
  "cur_ok m parts cur \<longleftrightarrow> int (length cur) \<le> m \<or> (cur \<in> set parts \<and> m < int (length cur))"

section \<open>Properties of the segmenter\<close>

lemma concat_split_sentences: "concat (split_sentences s) = s"
proof (induction s rule: split_sentences.induct)
  case (1 s)
  let ?rest = "dropWhile (\<lambda>c. \<not> is_delim c) s"
  show ?case
  proof (cases "?rest = []")
    case True
    then have "takeWhile (\<lambda>c. \<not> is_delim c) s = s"
      by (metis append_Nil2 takeWhile_dropWhile_id)
    with True show ?thesis
      by (subst split_sentences.simps) (simp add: Let_def)
  next
    case False
    have ih: "concat (split_sentences (dropWhile is_delim ?rest)) = dropWhile is_delim ?rest"
      using "1.IH" [OF refl refl False] .
    have "concat (split_sentences s) =
        takeWhile (\<lambda>c. \<not> is_delim c) s @ takeWhile is_delim ?rest @ dropWhile is_delim ?rest"
      using False ih by (subst split_sentences.simps) (simp add: Let_def)
    then show ?thesis by simp
  qed
qed

lemma strip_ws_Nil [simp]: "strip_ws [] = []"
  by (simp add: strip_ws_def)

lemma strip_ws_append [simp]: "strip_ws (a @ b) = strip_ws a @ strip_ws b"
  by (simp add: strip_ws_def)

lemma strip_ws_dropWhile: "strip_ws (dropWhile is_ws s) = strip_ws s"
  by (induction s) (simp_all add: strip_ws_def)

lemma strip_ws_rev: "strip_ws (rev s) = rev (strip_ws s)"
  by (simp add: strip_ws_def rev_filter)

lemma strip_ws_trim: "strip_ws (trim s) = strip_ws s"
  by (simp add: trim_def strip_ws_rev strip_ws_dropWhile)

lemma trim_empty_iff: "trim s = [] \<longleftrightarrow> strip_ws s = []"
proof
  assume "trim s = []"
  then show "strip_ws s = []" using strip_ws_trim [of s] by (simp add: strip_ws_def)
next
  assume "strip_ws s = []"
  then have "\<forall>c\<in>set s. is_ws c"
    by (simp add: strip_ws_def filter_empty_conv)
  then have "dropWhile is_ws s = []" by (induction s) simp_all
  then show "trim s = []" unfolding trim_def by (simp del: dropWhile_eq_Nil_conv)
qed

lemma length_trim_le: "length (trim s) \<le> length s"
proof -
  have "length (trim s) \<le> length (dropWhile is_ws s)"
    unfolding trim_def using length_dropWhile_le [of is_ws "rev (dropWhile is_ws s)"] by simp
  also have "\<dots> \<le> length s" by (rule length_dropWhile_le)
  finally show ?thesis .
qed

lemma strip_ws_push_trimmed:
  "strip_ws (concat (push_trimmed chunks cur)) = strip_ws (concat chunks) @ strip_ws cur"
  using trim_empty_iff [of cur] by (simp add: push_trimmed_def strip_ws_trim)

lemma strip_ws_foldl_chunk_step:
  "foldl (chunk_step m) (chunks, cur) parts = (chunks', cur') \<Longrightarrow>
   strip_ws (concat chunks') @ strip_ws cur' =
   strip_ws (concat chunks) @ strip_ws cur @ strip_ws (concat parts)"
proof (induction parts arbitrary: chunks cur)
  case Nil
  then show ?case by simp
next
  case (Cons p ps)
  show ?case
  proof (cases "int (length cur) + int (length p) \<le> m")
    case True
    with Cons.prems have "foldl (chunk_step m) (chunks, cur @ p) ps = (chunks', cur')" by simp
    from Cons.IH [OF this] show ?thesis by simp
  next
    case False
    with Cons.prems have "foldl (chunk_step m) (push_trimmed chunks cur, p) ps = (chunks', cur')"
      by simp
    from Cons.IH [OF this] show ?thesis by (simp add: strip_ws_push_trimmed)
  qed
qed

lemma strip_ws_boundary_chunks:
  "strip_ws (concat (boundary_chunks text m)) = strip_ws text"
proof -
  obtain chunks cur where f: "foldl (chunk_step m) ([], []) (split_sentences text) = (chunks, cur)"
    by (cases "foldl (chunk_step m) ([], []) (split_sentences text)")
  from strip_ws_foldl_chunk_step [OF f]
  have "strip_ws (concat chunks) @ strip_ws cur = strip_ws text"
    by (simp add: concat_split_sentences strip_ws_def)
  then show ?thesis
    by (simp add: boundary_chunks_def f strip_ws_push_trimmed)
qed

lemma substring_take_drop:
  "0 \<le> i \<Longrightarrow> 0 < m \<Longrightarrow> substring s i (i + m) = take (nat m) (drop (nat i) s)"
  by (auto simp: substring_def clamp_index_def Let_def min_def max_def nat_add_distrib)

lemma slice_loop_returns:
  "0 < m \<Longrightarrow> 0 \<le> i \<Longrightarrow>
   \<exists>sl. slice_loop text m i chunks = Some (chunks @ sl) \<and> concat sl = drop (nat i) text \<and>
        (\<forall>c\<in>set sl. int (length c) \<le> m)"
proof (induction "length text - nat i" arbitrary: i chunks rule: less_induct)
  case less
  show ?case
  proof (cases "i < int (length text)")
    case False
    then show ?thesis using less.prems
      by (subst slice_loop.simps) simp
  next
    case True
    let ?c = "substring text i (i + m)"
    have "length text - nat (i + m) < length text - nat i"
      using True less.prems by linarith
    from less.hyps [OF this less.prems(1), of "chunks @ [?c]"] less.prems
    obtain sl where sl: "slice_loop text m (i + m) (chunks @ [?c]) = Some ((chunks @ [?c]) @ sl)"
      "concat sl = drop (nat (i + m)) text" "\<forall>c\<in>set sl. int (length c) \<le> m"
      by auto
    have c: "?c = take (nat m) (drop (nat i) text)"
      using less.prems by (simp add: substring_take_drop)
    have "slice_loop text m i chunks = Some (chunks @ (?c # sl))"
      using True sl(1) by (subst slice_loop.simps) simp
    moreover have "concat (?c # sl) = drop (nat i) text"
    proof -
      have "nat (i + m) = nat m + nat i" using less.prems by (simp add: nat_add_distrib)
      then have "concat (?c # sl) = take (nat m) (drop (nat i) text) @ drop (nat m) (drop (nat i) text)"
        using sl(2) c by (simp only: concat.simps drop_drop)
      then show ?thesis by (simp only: append_take_drop_id)
    qed
    moreover have "\<forall>c\<in>set (?c # sl). int (length c) \<le> m"
      using sl(3) c less.prems by simp
    ultimately show ?thesis by blast
  qed
qed

lemma strip_ws_concat_filter:
  "strip_ws (concat (filter (\<lambda>c. c \<noteq> []) cs)) = strip_ws (concat cs)"
  by (induction cs) simp_all

lemma smartChunkText_content:
  assumes "0 < m"
  shows "\<exists>cs. smartChunkText text m = Some cs \<and> strip_ws (concat cs) = strip_ws text"
proof (cases "text = []")
  case True
  then show ?thesis by (simp add: smartChunkText_def)
next
  case False
  show ?thesis
  proof (cases "boundary_chunks text m = []")
    case True
    from slice_loop_returns [OF assms, of 0 "text" "[]"]
    obtain sl where sl: "slice_loop text m 0 [] = Some sl" "concat sl = text" by auto
    then show ?thesis using False True
      by (simp add: smartChunkText_def strip_ws_concat_filter)
  next
    case nonempty: False
    then show ?thesis using False
      by (simp add: smartChunkText_def strip_ws_concat_filter strip_ws_boundary_chunks)
  qed
qed

lemma chunk_ok_push:
  "\<forall>c\<in>set chunks. chunk_ok m parts c \<Longrightarrow> cur_ok m parts cur \<Longrightarrow>
   \<forall>c\<in>set (push_trimmed chunks cur). chunk_ok m parts c"
  using length_trim_le [of cur]
  by (auto simp: push_trimmed_def chunk_ok_def cur_ok_def)

lemma foldl_chunk_step_bound:
  "foldl (chunk_step m) (chunks, cur) ps = (chunks', cur') \<Longrightarrow>
   set ps \<subseteq> set parts \<Longrightarrow>
   \<forall>c\<in>set chunks. chunk_ok m parts c \<Longrightarrow> cur_ok m parts cur \<Longrightarrow>
   (\<forall>c\<in>set chunks'. chunk_ok m parts c) \<and> cur_ok m parts cur'"
proof (induction ps arbitrary: chunks cur)
  case Nil
  then show ?case by simp
next
  case (Cons p ps)
  show ?case
  proof (cases "int (length cur) + int (length p) \<le> m")
    case True
    with Cons.prems have f: "foldl (chunk_step m) (chunks, cur @ p) ps = (chunks', cur')" by simp
    have "cur_ok m parts (cur @ p)" using True by (simp add: cur_ok_def)
    from Cons.IH [OF f _ Cons.prems(3) this] Cons.prems(2) show ?thesis by simp
  next
    case False
    with Cons.prems have f: "foldl (chunk_step m) (push_trimmed chunks cur, p) ps = (chunks', cur')"
      by simp
    have "cur_ok m parts p" using Cons.prems(2) by (auto simp: cur_ok_def)
    from Cons.IH [OF f _ chunk_ok_push [OF Cons.prems(3,4)] this] Cons.prems(2)
    show ?thesis by simp
  qed
qed

lemma boundary_chunks_bound:
  assumes "0 \<le> m"
  shows "\<forall>c\<in>set (boundary_chunks text m). chunk_ok m (split_sentences text) c"
proof -
  obtain chunks cur where f: "foldl (chunk_step m) ([], []) (split_sentences text) = (chunks, cur)"
    by (cases "foldl (chunk_step m) ([], []) (split_sentences text)")
  have "cur_ok m (split_sentences text) []" using assms by (simp add: cur_ok_def)
  from foldl_chunk_step_bound [OF f subset_refl _ this]
  have "(\<forall>c\<in>set chunks. chunk_ok m (split_sentences text) c) \<and> cur_ok m (split_sentences text) cur"
    by simp
  then show ?thesis
    using chunk_ok_push [of chunks m "split_sentences text" cur]
    by (simp add: boundary_chunks_def f)
qed





text \<open>
  C3 at the text \<^verbatim>\<open>abcdef\<close> with the bound 3: the claim is that a chunk longer than the
  bound is returned only when the fixed-width fallback was taken. Here the boundary-aware
  pass returns the whole text as one chunk of length 6, and the fallback is not taken:
  the final flush of line 277 has pushed the chunk, so the guard
  \<open>chunks.length === 0\<close> of line 278 is false (as it is for every text with a
  non-whitespace code unit, lemma \<open>boundary_chunks_nonempty\<close>).
\<close>

theorem smartChunkText_overlong_failing_input:
  "smartChunkText (js ''abcdef'') 3 = Some [js ''abcdef'']
   \<and> boundary_chunks (js ''abcdef'') 3 \<noteq> []
   \<and> \<not> int (length (js ''abcdef'')) \<le> 3"
  by (simp add: smartChunkText_def boundary_chunks_def js_def split_sentences.simps
      is_delim_def push_trimmed_def trim_def is_ws_def)

text \<open>
  How far a returned chunk can exceed the bound: only by being one piece of the split
  that is itself longer than the bound.
\<close>

lemma smartChunkText_overlong_only_whole_piece:
  assumes "0 < m"
  shows "\<exists>cs. smartChunkText text m = Some cs \<and>
           (\<forall>c\<in>set cs. int (length c) \<le> m \<or>
              (\<exists>p\<in>set (split_sentences text). m < int (length p) \<and> c = trim p))"
proof (cases "text = []")
  case True
  then show ?thesis by (simp add: smartChunkText_def)
next
  case False
  show ?thesis
  proof (cases "boundary_chunks text m = []")
    case True
    from slice_loop_returns [OF assms, of 0 "text" "[]"]
    obtain sl where "slice_loop text m 0 [] = Some sl" "\<forall>c\<in>set sl. int (length c) \<le> m"
      by auto
    then show ?thesis using False True by (simp add: smartChunkText_def)
  next
    case nonempty: False
    from boundary_chunks_bound [of m "text"] assms
    have "\<forall>c\<in>set (boundary_chunks text m). chunk_ok m (split_sentences text) c" by simp
    then show ?thesis using False nonempty
      by (simp add: smartChunkText_def chunk_ok_def)
  qed
qed

text \<open>
  C4: for every text and every positive bound the segmenter returns, and the
  concatenation of its chunks, in their order, has after whitespace normalisation (the
  deletion of all whitespace) the same code units in the same order as the input.
\<close>

theorem smartChunkText_preserves_content:
  assumes "0 < m"
  shows "\<exists>cs. smartChunkText text m = Some cs \<and> strip_ws (concat cs) = strip_ws text"
  using assms by (rule smartChunkText_content)

theorem smartChunkText_preserves_content_witness:
  "(0::int) < 2 \<and>
   (\<exists>cs. smartChunkText (js ''a. b'') 2 = Some cs \<and> strip_ws (concat cs) = strip_ws (js ''a. b''))"
  using smartChunkText_preserves_content [of 2 "js ''a. b''"] by simp





section \<open>Properties of the credential cache\<close>

lemma getEndpoint_fresh:
  "cache_fresh now (tokenInfo w) \<Longrightarrow> getEndpoint net now w = (Inr (endpoint (tokenInfo w)), w)"
  by (simp add: getEndpoint_def)

lemma getEndpoint_mutates_only_on_success:
  "tokenInfo (snd (getEndpoint net now w)) \<noteq> tokenInfo w \<Longrightarrow>
   \<exists>data expiry. try_refresh net = Inr (data, expiry) \<and>
     tokenInfo (snd (getEndpoint net now w)) =
       \<lparr>endpoint = Some data, token = Some (endpoint_t data), expiredAt = expiry\<rparr>"
  by (auto simp: getEndpoint_def split: if_splits sum.splits prod.splits)

text \<open>
  C7: with a cached token (a non-empty string), a recorded expiry and a clock that is not
  negative and earlier than the expiry minus five minutes, \<open>getEndpoint\<close> returns the
  cached endpoint and the state it was called in: the cache is unchanged, no request has
  been counted, and the outcome a request would have had plays no part.
\<close>

theorem getEndpoint_cache_hit:
  assumes "token (tokenInfo w) = Some tk" and "tk \<noteq> []"
    and "expiredAt (tokenInfo w) = Some e"
    and "0 \<le> now" and "now < e - TOKEN_REFRESH_BEFORE_EXPIRY"
  shows "getEndpoint net now w = (Inr (endpoint (tokenInfo w)), w)"
proof -
  from assms(4,5) have "e \<noteq> 0" by (simp add: TOKEN_REFRESH_BEFORE_EXPIRY_def)
  with assms have "cache_fresh now (tokenInfo w)"
    by (simp add: cache_fresh_def truthy_string_def truthy_number_def)
  then show ?thesis by (rule getEndpoint_fresh)
qed

theorem getEndpoint_cache_hit_witness:
  "token (tokenInfo \<lparr>tokenInfo = \<lparr>endpoint = Some (EndpointData (js ''eastus'') (js ''a.b.c'')),
       token = Some (js ''a.b.c''), expiredAt = Some 1000\<rparr>, fetches = 1\<rparr>) = Some (js ''a.b.c'')
   \<and> js ''a.b.c'' \<noteq> []
   \<and> (0::real) \<le> 600 \<and> (600::real) < 1000 - TOKEN_REFRESH_BEFORE_EXPIRY
   \<and> getEndpoint (Inl FetchRejected) 600
        \<lparr>tokenInfo = \<lparr>endpoint = Some (EndpointData (js ''eastus'') (js ''a.b.c'')),
           token = Some (js ''a.b.c''), expiredAt = Some 1000\<rparr>, fetches = 1\<rparr>
      = (Inr (Some (EndpointData (js ''eastus'') (js ''a.b.c''))),
         \<lparr>tokenInfo = \<lparr>endpoint = Some (EndpointData (js ''eastus'') (js ''a.b.c'')),
           token = Some (js ''a.b.c''), expiredAt = Some 1000\<rparr>, fetches = 1\<rparr>)"
  using getEndpoint_cache_hit [of
      "\<lparr>tokenInfo = \<lparr>endpoint = Some (EndpointData (js ''eastus'') (js ''a.b.c'')),
           token = Some (js ''a.b.c''), expiredAt = Some 1000\<rparr>, fetches = 1\<rparr>"
      "js ''a.b.c''" 1000 600 "Inl FetchRejected"]
  by (simp add: TOKEN_REFRESH_BEFORE_EXPIRY_def js_def)

text \<open>
  C8: when the cache is not fresh and the refresh fails with an error, the cache is left
  as it was; the cached endpoint is returned when a cached token exists, expired or not,
  and the error is thrown when none exists.
\<close>

theorem getEndpoint_refresh_failure:
  assumes "\<not> cache_fresh now (tokenInfo w)" and "try_refresh net = Inl e"
  shows "tokenInfo (snd (getEndpoint net now w)) = tokenInfo w
     \<and> fst (getEndpoint net now w) =
         (if truthy_string (token (tokenInfo w)) then Inr (endpoint (tokenInfo w)) else Inl e)"
  using assms by (simp add: getEndpoint_def)

theorem getEndpoint_refresh_failure_witness:
  "\<not> cache_fresh 2000 (tokenInfo \<lparr>tokenInfo = \<lparr>endpoint = Some (EndpointData (js ''eastus'') (js ''a.b.c'')),
       token = Some (js ''a.b.c''), expiredAt = Some 1000\<rparr>, fetches = 1\<rparr>)
   \<and> try_refresh (Inr (EndpointReply False 503 None)) = Inl (EndpointStatus 503)
   \<and> tokenInfo (snd (getEndpoint (Inr (EndpointReply False 503 None)) 2000
        \<lparr>tokenInfo = \<lparr>endpoint = Some (EndpointData (js ''eastus'') (js ''a.b.c'')),
           token = Some (js ''a.b.c''), expiredAt = Some 1000\<rparr>, fetches = 1\<rparr>))
      = \<lparr>endpoint = Some (EndpointData (js ''eastus'') (js ''a.b.c'')),
           token = Some (js ''a.b.c''), expiredAt = Some 1000\<rparr>
   \<and> fst (getEndpoint (Inr (EndpointReply False 503 None)) 2000
        \<lparr>tokenInfo = \<lparr>endpoint = Some (EndpointData (js ''eastus'') (js ''a.b.c'')),
           token = Some (js ''a.b.c''), expiredAt = Some 1000\<rparr>, fetches = 1\<rparr>)
      = Inr (Some (EndpointData (js ''eastus'') (js ''a.b.c'')))"
  using getEndpoint_refresh_failure [of 2000
      "\<lparr>tokenInfo = \<lparr>endpoint = Some (EndpointData (js ''eastus'') (js ''a.b.c'')),
           token = Some (js ''a.b.c''), expiredAt = Some 1000\<rparr>, fetches = 1\<rparr>"
      "Inr (EndpointReply False 503 None)" "EndpointStatus 503"]
  by (simp add: cache_fresh_def truthy_string_def truthy_number_def try_refresh_def
      TOKEN_REFRESH_BEFORE_EXPIRY_def js_def)

section \<open>Properties of the markup payload\<close>

lemma replace_all_same: "replace_all c [c] s = s"
  by (induction s) (simp_all add: replace_all_def)

lemma sanitizedText_unchanged: "sanitizedText text = text"
  by (simp add: sanitizedText_def js_def replace_all_same)

text \<open>
  C6 at the text \<^verbatim>\<open>a<b&c>d\<close>: the text put into the markup is the text itself, with its
  three markup characters as they were.
\<close>

theorem getSsml_markup_not_escaped:
  "sanitizedText (js ''a<b&c>d'') = js ''a<b&c>d''
   \<and> getSsml (js ''a<b&c>d'') (js ''v'') (js ''0'') (js ''0'') (js ''general'') =
       js ''<speak xmlns='' @ dq @ js ''http://www.w3.org/2001/10/synthesis'' @ dq @
       js '' xmlns:mstts='' @ dq @ js ''http://www.w3.org/2001/mstts'' @ dq @
       js '' version='' @ dq @ js ''1.0'' @ dq @ js '' xml:lang='' @ dq @ js ''en-US'' @ dq @
       js ''><voice name='' @ dq @ js ''v'' @ dq @
       js ''><mstts:express-as style='' @ dq @ js ''general'' @ dq @
       js ''><prosody rate='' @ dq @ js ''0%'' @ dq @ js '' pitch='' @ dq @ js ''0%'' @ dq @
       js ''>a<b&c>d</prosody></mstts:express-as></voice></speak>''"
  by (simp add: getSsml_def sanitizedText_def replace_all_def js_def)

section \<open>Properties of the batch pipeline\<close>

subsection \<open>Promise.all and one batch\<close>

lemma those_map_Some: "those (map (Some \<circ> f) xs) = Some (map f xs)"
  by (induction xs) simp_all

lemma settle_in_order_fulfilled:
  "\<forall>k\<in>set ks. k < length ps \<and> \<not> isl (ps ! k) \<Longrightarrow>
   \<exists>vals'. settle_in_order ps ks vals = Inr vals' \<and> length vals' = length vals \<and>
     (\<forall>k<length vals. vals' ! k = (if k \<in> set ks then Some (projr (ps ! k)) else vals ! k))"
proof (induction ks arbitrary: vals)
  case Nil
  then show ?case by simp
next
  case (Cons k ks)
  from Cons.prems obtain v where v: "ps ! k = Inr v"
    by (cases "ps ! k") auto
  from Cons.prems have "\<forall>k\<in>set ks. k < length ps \<and> \<not> isl (ps ! k)" by simp
  from Cons.IH [OF this, of "vals[k := Some v]"]
  obtain vals' where vals': "settle_in_order ps ks (vals[k := Some v]) = Inr vals'"
    "length vals' = length vals"
    "\<forall>j<length vals. vals' ! j = (if j \<in> set ks then Some (projr (ps ! j)) else vals[k := Some v] ! j)"
    by auto
  have "\<forall>j<length vals. vals' ! j = (if j \<in> set (k # ks) then Some (projr (ps ! j)) else vals ! j)"
    using vals'(3) v by (auto simp: nth_list_update)
  with vals'(1,2) v show ?case by simp
qed

lemma settle_in_order_rejected:
  "\<exists>k\<in>set ks. isl (ps ! k) \<Longrightarrow> \<forall>k\<in>set ks. k < length ps \<Longrightarrow>
   \<exists>e. settle_in_order ps ks vals = Inl e \<and> Inl e \<in> set ps"
proof (induction ks arbitrary: vals)
  case Nil
  then show ?case by simp
next
  case (Cons k ks)
  show ?case
  proof (cases "ps ! k")
    case (Inl e)
    moreover from Cons.prems(2) have "ps ! k \<in> set ps" by simp
    ultimately show ?thesis by auto
  next
    case (Inr v)
    with Cons.prems have "\<exists>k\<in>set ks. isl (ps ! k)" "\<forall>k\<in>set ks. k < length ps" by auto
    from Cons.IH [OF this] Inr show ?thesis by simp
  qed
qed

lemma set_completion_order: "set (completion_order latency n) = {0..<n}"
  by (simp add: completion_order_def)

lemma promise_all_fulfilled:
  assumes "\<forall>p\<in>set ps. \<not> isl p"
  shows "promise_all latency ps = Some (Inr (map projr ps))"
proof -
  let ?ks = "completion_order latency (length ps)"
  have "\<forall>k\<in>set ?ks. k < length ps \<and> \<not> isl (ps ! k)"
    using assms by (simp add: set_completion_order)
  from settle_in_order_fulfilled [OF this, of "replicate (length ps) None"]
  obtain vals' where vals': "settle_in_order ps ?ks (replicate (length ps) None) = Inr vals'"
    "length vals' = length ps"
    "\<forall>k<length ps. vals' ! k = Some (projr (ps ! k))"
    by (auto simp: set_completion_order)
  have "vals' = map Some (map projr ps)"
    using vals'(2,3) by (intro nth_equalityI) simp_all
  then show ?thesis
    using vals'(1) by (simp add: promise_all_def those_map_Some)
qed

lemma promise_all_rejected:
  assumes "\<exists>p\<in>set ps. isl p"
  shows "\<exists>e. promise_all latency ps = Some (Inl e) \<and> Inl e \<in> set ps"
proof -
  let ?ks = "completion_order latency (length ps)"
  from assms obtain k where "k < length ps" "isl (ps ! k)"
    by (auto simp: in_set_conv_nth)
  then have "\<exists>k\<in>set ?ks. isl (ps ! k)" by (auto simp: set_completion_order)
  moreover have "\<forall>k\<in>set ?ks. k < length ps" by (simp add: set_completion_order)
  ultimately obtain e where "settle_in_order ps ?ks (replicate (length ps) None) = Inl e" "Inl e \<in> set ps"
    using settle_in_order_rejected by blast
  then show ?thesis by (auto simp: promise_all_def)
qed

lemma await_batch_fulfilled:
  assumes "\<forall>j\<in>set idxs. \<not> isl (call j (chunks ! j))"
  shows "await_batch call latency chunks idxs = Some (Inr (map (\<lambda>j. projr (call j (chunks ! j))) idxs))"
  using assms by (simp add: await_batch_def promise_all_fulfilled comp_def)

lemma await_batch_rejected:
  assumes "\<exists>j\<in>set idxs. isl (call j (chunks ! j))"
  shows "\<exists>e. await_batch call latency chunks idxs = Some (Inl e) \<and>
           (\<exists>j\<in>set idxs. call j (chunks ! j) = Inl e)"
proof -
  from assms have "\<exists>p\<in>set (map (\<lambda>j. call j (chunks ! j)) idxs). isl p" by simp
  from promise_all_rejected [OF this, of "\<lambda>p. latency (idxs ! p)"]
  show ?thesis by (auto simp: await_batch_def)
qed

lemma batch_indices_nat:
  "i < length chunks \<Longrightarrow> 0 < c \<Longrightarrow>
   batch_indices chunks (int c) (int i) = [i ..< min (length chunks) (i + c)]"
  by (simp add: batch_indices_def slice_indices_def rel_index_def min_def nat_add_distrib)

lemma batches_from_concat: "0 < c \<Longrightarrow> concat (batches_from c n i) = [i..<n]"
proof (induction c n i rule: batches_from.induct)
  case (1 c n i)
  show ?case
  proof (cases "i < n")
    case True
    with 1 have "concat (batches_from c n (i + c)) = [i + c..<n]" by simp
    moreover have "[i..<min n (i + c)] @ [i + c..<n] = [i..<n]"
    proof (cases "i + c \<le> n")
      case True
      then show ?thesis
        using upt_add_eq_append [of i "i + c" "n - (i + c)"] by (simp add: min_def)
    next
      case False
      then show ?thesis by (simp add: min_def)
    qed
    ultimately show ?thesis using True 1(2)
      by (subst batches_from.simps) simp
  next
    case False
    then show ?thesis by (subst batches_from.simps) simp
  qed
qed

lemma batches_from_sizes:
  "\<forall>b\<in>set (batches_from c n i). b \<noteq> [] \<and> length b \<le> c"
proof (induction c n i rule: batches_from.induct)
  case (1 c n i)
  show ?case
  proof (cases "0 < c \<and> i < n")
    case True
    with 1 have "\<forall>b\<in>set (batches_from c n (i + c)). b \<noteq> [] \<and> length b \<le> c" by simp
    then show ?thesis using True
      by (subst batches_from.simps) auto
  next
    case False
    then have "batches_from c n i = []" by (subst batches_from.simps) auto
    then show ?thesis by simp
  qed
qed


lemma upt_batch_split: "i < n \<Longrightarrow> [i..<min n (i + c)] @ [i + c..<n] = [i..<(n::nat)]"
proof (cases "i + c \<le> n")
  case True
  then show ?thesis
    using upt_add_eq_append [of i "i + c" "n - (i + c)"] by (simp add: min_def)
next
  case False
  then show ?thesis by (simp add: min_def)
qed

lemma batches_from_step:
  "0 < c \<Longrightarrow> i < n \<Longrightarrow> batches_from c n i = [i..<min n (i + c)] # batches_from c n (i + c)"
  by (subst batches_from.simps) simp

lemma batches_from_done: "\<not> i < n \<Longrightarrow> batches_from c n i = []"
  by (subst batches_from.simps) simp

lemma getVoice_loop_fulfilled:
  assumes "0 < c" and "\<forall>j<length chunks. \<not> isl (call j (chunks ! j))"
  shows "getVoice_loop call latency chunks (int c) (int i) acc tr =
     Some (Inr (acc @ map (\<lambda>j. projr (call j (chunks ! j))) [i..<length chunks]),
           tr @ concat (map (\<lambda>b. map Dispatch b @ [BatchAwaited]) (batches_from c (length chunks) i)))"
proof (induction "length chunks - i" arbitrary: i acc tr rule: less_induct)
  case less
  show ?case
  proof (cases "i < length chunks")
    case False
    then show ?thesis
      by (subst getVoice_loop.simps) (simp add: batches_from_done)
  next
    case True
    let ?b = "[i..<min (length chunks) (i + c)]"
    let ?blob = "\<lambda>j. projr (call j (chunks ! j))"
    have b: "batch_indices chunks (int c) (int i) = ?b"
      using True assms(1) by (rule batch_indices_nat)
    have "\<forall>j\<in>set ?b. \<not> isl (call j (chunks ! j))" using assms(2) by simp
    then have aw: "await_batch call latency chunks ?b = Some (Inr (map ?blob ?b))"
      by (rule await_batch_fulfilled)
    have "length chunks - (i + c) < length chunks - i" using True assms(1) by simp
    from less.hyps [OF this, of "acc @ map ?blob ?b" "tr @ map Dispatch ?b @ [BatchAwaited]"]
    have ih: "getVoice_loop call latency chunks (int c) (int (i + c)) (acc @ map ?blob ?b)
          (tr @ map Dispatch ?b @ [BatchAwaited]) =
        Some (Inr ((acc @ map ?blob ?b) @ map ?blob [i + c..<length chunks]),
          (tr @ map Dispatch ?b @ [BatchAwaited]) @
            concat (map (\<lambda>b. map Dispatch b @ [BatchAwaited]) (batches_from c (length chunks) (i + c))))" .
    have blobs: "(acc @ map ?blob ?b) @ map ?blob [i + c..<length chunks] = acc @ map ?blob [i..<length chunks]"
      using upt_batch_split [OF True, of c] by (metis append_assoc map_append)
    have "getVoice_loop call latency chunks (int c) (int i) acc tr =
        getVoice_loop call latency chunks (int c) (int (i + c)) (acc @ map ?blob ?b)
          (tr @ map Dispatch ?b @ [BatchAwaited])"
      using True by (subst getVoice_loop.simps) (simp add: b aw)
    also note ih
    finally show ?thesis
      by (simp only: blobs) (simp add: batches_from_step [OF assms(1) True])
  qed
qed

lemma pipe_loop_fulfilled:
  assumes "0 < c" and "\<forall>j<length chunks. \<not> isl (call j (chunks ! j))"
  shows "pipe_loop call latency chunks (int c) (int i) tr =
     Some (Inr (),
           tr @ concat (map (\<lambda>b. map Dispatch b @ [BatchAwaited] @
                                 map (\<lambda>j. Write (projr (call j (chunks ! j)))) b)
                          (batches_from c (length chunks) i)))"
proof (induction "length chunks - i" arbitrary: i tr rule: less_induct)
  case less
  show ?case
  proof (cases "i < length chunks")
    case False
    then show ?thesis
      by (subst pipe_loop.simps) (simp add: batches_from_done)
  next
    case True
    let ?b = "[i..<min (length chunks) (i + c)]"
    let ?blob = "\<lambda>j. projr (call j (chunks ! j))"
    let ?tr1 = "tr @ map Dispatch ?b @ [BatchAwaited] @ map Write (map ?blob ?b)"
    have b: "batch_indices chunks (int c) (int i) = ?b"
      using True assms(1) by (rule batch_indices_nat)
    have "\<forall>j\<in>set ?b. \<not> isl (call j (chunks ! j))" using assms(2) by simp
    then have aw: "await_batch call latency chunks ?b = Some (Inr (map ?blob ?b))"
      by (rule await_batch_fulfilled)
    have "length chunks - (i + c) < length chunks - i" using True assms(1) by simp
    from less.hyps [OF this, of ?tr1]
    have ih: "pipe_loop call latency chunks (int c) (int (i + c)) ?tr1 =
        Some (Inr (), ?tr1 @ concat (map (\<lambda>b. map Dispatch b @ [BatchAwaited] @ map (\<lambda>j. Write (?blob j)) b)
                (batches_from c (length chunks) (i + c))))" .
    have "pipe_loop call latency chunks (int c) (int i) tr =
        pipe_loop call latency chunks (int c) (int (i + c)) ?tr1"
      using True by (subst pipe_loop.simps) (simp add: b aw)
    also note ih
    finally show ?thesis
      by (simp add: batches_from_step [OF assms(1) True] comp_def)
  qed
qed

lemma getVoice_loop_step_rejected:
  assumes "i < length chunks" and "0 < c"
    and "await_batch call latency chunks [i..<min (length chunks) (i + c)] = Some (Inl e)"
  shows "getVoice_loop call latency chunks (int c) (int i) acc tr =
     Some (Inl e, tr @ map Dispatch [i..<min (length chunks) (i + c)] @ [BatchAwaited])"
  using assms(1,3) by (subst getVoice_loop.simps) (simp add: batch_indices_nat [OF assms(1,2)])

lemma getVoice_loop_step_fulfilled:
  assumes "i < length chunks" and "0 < c"
    and "await_batch call latency chunks [i..<min (length chunks) (i + c)] = Some (Inr blobs)"
  shows "getVoice_loop call latency chunks (int c) (int i) acc tr =
     getVoice_loop call latency chunks (int c) (int (i + c)) (acc @ blobs)
       (tr @ map Dispatch [i..<min (length chunks) (i + c)] @ [BatchAwaited])"
  using assms(1,3) by (subst getVoice_loop.simps) (simp add: batch_indices_nat [OF assms(1,2)])

lemma batch_div:
  assumes "0 < c" and "j \<in> set [m * c..<min n (m * c + c)]"
  shows "j div c = (m::nat)"
proof -
  from assms(2) have "m * c \<le> j" "j < m * c + c" by simp_all
  then have "m * c \<le> j" "j < Suc m * c" by (simp_all add: add.commute)
  then show ?thesis
    by (metis div_nat_eqI mult.commute)
qed

lemma getVoice_loop_rejected:
  assumes "0 < c" and "f < length chunks" and "isl (call f (chunks ! f))"
  shows "m \<le> f div c \<Longrightarrow>
    \<exists>e tr'. getVoice_loop call latency chunks (int c) (int (m * c)) acc tr = Some (Inl e, tr @ tr')
       \<and> (\<exists>j<length chunks. call j (chunks ! j) = Inl e)
       \<and> (\<forall>j. Dispatch j \<in> set tr' \<longrightarrow> j div c \<le> f div c)"
proof (induction "f div c - m" arbitrary: m acc tr rule: less_induct)
  case less
  let ?n = "length chunks"
  let ?b = "[m * c..<min ?n (m * c + c)]"
  let ?blob = "\<lambda>j. projr (call j (chunks ! j))"
  have "m * c \<le> f div c * c" using less.prems by simp
  also have "\<dots> \<le> f" by simp
  finally have mf: "m * c \<le> f" .
  with assms(2) have lt: "m * c < ?n" by simp
  have bdiv: "\<forall>j\<in>set ?b. j div c = m" using batch_div [OF assms(1)] by blast
  show ?case
  proof (cases "\<exists>j\<in>set ?b. isl (call j (chunks ! j))")
    case True
    from await_batch_rejected [of ?b call chunks latency] True
    obtain e j where e: "await_batch call latency chunks ?b = Some (Inl e)"
      "j \<in> set ?b" "call j (chunks ! j) = Inl e" by blast
    have "getVoice_loop call latency chunks (int c) (int (m * c)) acc tr =
        Some (Inl e, tr @ (map Dispatch ?b @ [BatchAwaited]))"
      by (rule getVoice_loop_step_rejected [OF lt assms(1) e(1)])
    moreover have "\<exists>j<?n. call j (chunks ! j) = Inl e" using e(2,3) by auto
    moreover have "\<forall>j. Dispatch j \<in> set (map Dispatch ?b @ [BatchAwaited]) \<longrightarrow> j div c \<le> f div c"
      using bdiv less.prems by auto
    ultimately show ?thesis by blast
  next
    case False
    then have aw: "await_batch call latency chunks ?b = Some (Inr (map ?blob ?b))"
      by (intro await_batch_fulfilled) simp
    from False assms(3) have "f \<notin> set ?b" by blast
    with mf assms(2) have "Suc m * c \<le> f" by (simp add: add.commute)
    then have sm: "Suc m \<le> f div c"
      using assms(1) by (simp add: less_eq_div_iff_mult_less_eq)
    then have "f div c - Suc m < f div c - m" by simp
    from less.hyps [OF this sm, of "acc @ map ?blob ?b" "tr @ map Dispatch ?b @ [BatchAwaited]"]
    obtain e tr' where ih:
      "getVoice_loop call latency chunks (int c) (int (Suc m * c)) (acc @ map ?blob ?b)
          (tr @ map Dispatch ?b @ [BatchAwaited]) = Some (Inl e, (tr @ map Dispatch ?b @ [BatchAwaited]) @ tr')"
      "\<exists>j<?n. call j (chunks ! j) = Inl e"
      "\<forall>j. Dispatch j \<in> set tr' \<longrightarrow> j div c \<le> f div c" by blast
    have "m * c + c = Suc m * c" by simp
    with getVoice_loop_step_fulfilled [OF lt assms(1) aw, of acc tr]
    have "getVoice_loop call latency chunks (int c) (int (m * c)) acc tr =
        getVoice_loop call latency chunks (int c) (int (Suc m * c)) (acc @ map ?blob ?b)
          (tr @ map Dispatch ?b @ [BatchAwaited])"
      by (simp only:)
    with ih(1) have "getVoice_loop call latency chunks (int c) (int (m * c)) acc tr =
        Some (Inl e, tr @ (map Dispatch ?b @ [BatchAwaited] @ tr'))" by simp
    moreover have "\<forall>j. Dispatch j \<in> set (map Dispatch ?b @ [BatchAwaited] @ tr') \<longrightarrow> j div c \<le> f div c"
      using bdiv less.prems ih(3) by auto
    ultimately show ?thesis using ih(2) by blast
  qed
qed

lemma pipe_loop_step_rejected:
  assumes "i < length chunks" and "0 < c"
    and "await_batch call latency chunks [i..<min (length chunks) (i + c)] = Some (Inl e)"
  shows "pipe_loop call latency chunks (int c) (int i) tr =
     Some (Inl e, tr @ map Dispatch [i..<min (length chunks) (i + c)] @ [BatchAwaited])"
  using assms(1,3) by (subst pipe_loop.simps) (simp add: batch_indices_nat [OF assms(1,2)])

lemma pipe_loop_step_fulfilled:
  assumes "i < length chunks" and "0 < c"
    and "await_batch call latency chunks [i..<min (length chunks) (i + c)] = Some (Inr blobs)"
  shows "pipe_loop call latency chunks (int c) (int i) tr =
     pipe_loop call latency chunks (int c) (int (i + c))
       (tr @ map Dispatch [i..<min (length chunks) (i + c)] @ [BatchAwaited] @ map Write blobs)"
  using assms(1,3) by (subst pipe_loop.simps) (simp add: batch_indices_nat [OF assms(1,2)])

lemma pipe_loop_rejected:
  assumes "0 < c" and "f < length chunks" and "isl (call f (chunks ! f))"
  shows "m \<le> f div c \<Longrightarrow>
    \<exists>e tr'. pipe_loop call latency chunks (int c) (int (m * c)) tr = Some (Inl e, tr @ tr')
       \<and> (\<exists>j<length chunks. call j (chunks ! j) = Inl e)
       \<and> (\<forall>j. Dispatch j \<in> set tr' \<longrightarrow> j div c \<le> f div c)"
proof (induction "f div c - m" arbitrary: m tr rule: less_induct)
  case less
  let ?n = "length chunks"
  let ?b = "[m * c..<min ?n (m * c + c)]"
  let ?blob = "\<lambda>j. projr (call j (chunks ! j))"
  let ?tr1 = "tr @ map Dispatch ?b @ [BatchAwaited] @ map Write (map ?blob ?b)"
  have "m * c \<le> f div c * c" using less.prems by simp
  also have "\<dots> \<le> f" by simp
  finally have mf: "m * c \<le> f" .
  with assms(2) have lt: "m * c < ?n" by simp
  have bdiv: "\<forall>j\<in>set ?b. j div c = m" using batch_div [OF assms(1)] by blast
  show ?case
  proof (cases "\<exists>j\<in>set ?b. isl (call j (chunks ! j))")
    case True
    from await_batch_rejected [of ?b call chunks latency] True
    obtain e j where e: "await_batch call latency chunks ?b = Some (Inl e)"
      "j \<in> set ?b" "call j (chunks ! j) = Inl e" by blast
    have "pipe_loop call latency chunks (int c) (int (m * c)) tr =
        Some (Inl e, tr @ (map Dispatch ?b @ [BatchAwaited]))"
      by (rule pipe_loop_step_rejected [OF lt assms(1) e(1)])
    moreover have "\<exists>j<?n. call j (chunks ! j) = Inl e" using e(2,3) by auto
    moreover have "\<forall>j. Dispatch j \<in> set (map Dispatch ?b @ [BatchAwaited]) \<longrightarrow> j div c \<le> f div c"
      using bdiv less.prems by auto
    ultimately show ?thesis by blast
  next
    case False
    then have aw: "await_batch call latency chunks ?b = Some (Inr (map ?blob ?b))"
      by (intro await_batch_fulfilled) simp
    from False assms(3) have "f \<notin> set ?b" by blast
    with mf assms(2) have "Suc m * c \<le> f" by (simp add: add.commute)
    then have sm: "Suc m \<le> f div c"
      using assms(1) by (simp add: less_eq_div_iff_mult_less_eq)
    then have "f div c - Suc m < f div c - m" by simp
    from less.hyps [OF this sm, of ?tr1]
    obtain e tr' where ih:
      "pipe_loop call latency chunks (int c) (int (Suc m * c)) ?tr1 = Some (Inl e, ?tr1 @ tr')"
      "\<exists>j<?n. call j (chunks ! j) = Inl e"
      "\<forall>j. Dispatch j \<in> set tr' \<longrightarrow> j div c \<le> f div c" by blast
    have "m * c + c = Suc m * c" by simp
    with pipe_loop_step_fulfilled [OF lt assms(1) aw, of tr]
    have "pipe_loop call latency chunks (int c) (int (m * c)) tr =
        pipe_loop call latency chunks (int c) (int (Suc m * c)) ?tr1"
      by (simp only:)
    with ih(1) have "pipe_loop call latency chunks (int c) (int (m * c)) tr =
        Some (Inl e, tr @ (map Dispatch ?b @ [BatchAwaited] @ map Write (map ?blob ?b) @ tr'))" by simp
    moreover have "\<forall>j. Dispatch j \<in> set (map Dispatch ?b @ [BatchAwaited] @ map Write (map ?blob ?b) @ tr')
        \<longrightarrow> j div c \<le> f div c"
      using bdiv less.prems ih(3) by auto
    ultimately show ?thesis using ih(2) by blast
  qed
qed

subsection \<open>A loop that does not return\<close>








lemma written_append: "written (xs @ ys) = written xs @ written ys"
  by (induction xs rule: written.induct) simp_all

lemma written_Dispatch: "written (map Dispatch b) = []"
  by (induction b) simp_all

lemma written_Write: "written (map Write bs) = bs"
  by (induction bs) simp_all

lemma written_batches:
  "written (concat (map (\<lambda>b. map Dispatch b @ [BatchAwaited] @ map (\<lambda>j. Write (g j)) b) bs)) =
   map g (concat bs)"
proof (induction bs)
  case Nil
  then show ?case by simp
next
  case (Cons b bs)
  have "written (map (\<lambda>j. Write (g j)) b) = map g b"
    using written_Write [of "map g b"] by (simp add: comp_def)
  with Cons show ?case by (simp add: written_append written_Dispatch)
qed

lemma getVoice_loop_start_fulfilled:
  assumes "1 \<le> c" and "\<forall>j<length chunks. \<not> isl (call j (chunks ! j))"
  shows "getVoice_loop call latency chunks c 0 [] [] =
     Some (Inr (map (\<lambda>j. projr (call j (chunks ! j))) [0..<length chunks]),
           concat (map (\<lambda>b. map Dispatch b @ [BatchAwaited]) (batches_from (nat c) (length chunks) 0)))"
proof -
  from assms(1) have "0 < nat c" "int (nat c) = c" by simp_all
  with getVoice_loop_fulfilled [of "nat c" chunks call latency 0 "[]" "[]"] assms(2)
  show ?thesis by simp
qed

lemma pipe_loop_start_fulfilled:
  assumes "1 \<le> c" and "\<forall>j<length chunks. \<not> isl (call j (chunks ! j))"
  shows "pipe_loop call latency chunks c 0 [] =
     Some (Inr (),
           concat (map (\<lambda>b. map Dispatch b @ [BatchAwaited] @
                                 map (\<lambda>j. Write (projr (call j (chunks ! j)))) b)
                          (batches_from (nat c) (length chunks) 0)))"
proof -
  from assms(1) have "0 < nat c" "int (nat c) = c" by simp_all
  with pipe_loop_fulfilled [of "nat c" chunks call latency 0 "[]"] assms(2)
  show ?thesis by simp
qed

lemma getVoice_loop_start_rejected:
  assumes "1 \<le> c" and "f < length chunks" and "isl (call f (chunks ! f))"
  shows "\<exists>e tr. getVoice_loop call latency chunks c 0 [] [] = Some (Inl e, tr)
       \<and> (\<exists>j<length chunks. call j (chunks ! j) = Inl e)
       \<and> (\<forall>j. Dispatch j \<in> set tr \<longrightarrow> j div nat c \<le> f div nat c)"
proof -
  from assms(1) have "0 < nat c" "int (nat c) = c" by simp_all
  with getVoice_loop_rejected [of "nat c" f chunks call 0 latency "[]" "[]"] assms(2,3)
  show ?thesis by simp
qed

lemma pipe_loop_start_rejected:
  assumes "1 \<le> c" and "f < length chunks" and "isl (call f (chunks ! f))"
  shows "\<exists>e tr. pipe_loop call latency chunks c 0 [] = Some (Inl e, tr)
       \<and> (\<exists>j<length chunks. call j (chunks ! j) = Inl e)
       \<and> (\<forall>j. Dispatch j \<in> set tr \<longrightarrow> j div nat c \<le> f div nat c)"
proof -
  from assms(1) have "0 < nat c" "int (nat c) = c" by simp_all
  with pipe_loop_rejected [of "nat c" f chunks call 0 latency "[]"] assms(2,3)
  show ?thesis by simp
qed

text \<open>
  C1: for every chunk list, every concurrency of at least 1 and every latency of the
  calls (so every order of completion within the batches), when the calls succeed
  \<open>getVoice\<close> dispatches the chunks batch after batch, awaiting each batch before the
  next is dispatched; the batches are consecutive, cover the chunk indices in order and
  hold at most \<open>concurrency\<close> chunks each; and the payload is the concatenation of the
  calls' results in the order of the chunks.
\<close>

theorem getVoice_ordered_payload:
  assumes "1 \<le> concurrency"
    and "\<forall>j<length textChunks. \<not> isl (call j (textChunks ! j))"
  shows "getVoice call latency textChunks concurrency =
      Some (AudioResponse (concat (map (\<lambda>j. projr (call j (textChunks ! j))) [0..<length textChunks])),
            concat (map (\<lambda>b. map Dispatch b @ [BatchAwaited])
                     (batches_from (nat concurrency) (length textChunks) 0)) @ [Respond])
    \<and> concat (batches_from (nat concurrency) (length textChunks) 0) = [0..<length textChunks]
    \<and> (\<forall>b\<in>set (batches_from (nat concurrency) (length textChunks) 0).
          b \<noteq> [] \<and> int (length b) \<le> concurrency)"
proof (intro conjI ballI)
  have "getVoice_loop call latency textChunks concurrency 0 [] [] =
     Some (Inr (map (\<lambda>j. projr (call j (textChunks ! j))) [0..<length textChunks]),
           concat (map (\<lambda>b. map Dispatch b @ [BatchAwaited])
             (batches_from (nat concurrency) (length textChunks) 0)))"
    using assms by (rule getVoice_loop_start_fulfilled)
  then show "getVoice call latency textChunks concurrency =
      Some (AudioResponse (concat (map (\<lambda>j. projr (call j (textChunks ! j))) [0..<length textChunks])),
            concat (map (\<lambda>b. map Dispatch b @ [BatchAwaited])
                     (batches_from (nat concurrency) (length textChunks) 0)) @ [Respond])"
    by (simp add: getVoice_def)
next
  from assms(1) have "0 < nat concurrency" by simp
  then show "concat (batches_from (nat concurrency) (length textChunks) 0) = [0..<length textChunks]"
    by (rule batches_from_concat)
next
  fix b assume "b \<in> set (batches_from (nat concurrency) (length textChunks) 0)"
  with batches_from_sizes [of "nat concurrency" "length textChunks" 0]
  have "b \<noteq> []" "length b \<le> nat concurrency" by simp_all
  then show "b \<noteq> []" "int (length b) \<le> concurrency" using assms(1) by simp_all
qed

text \<open>
  C5, amended: in streaming mode, when the calls succeed, the blobs of each batch are
  handed to the writer right after the batch has been awaited and before any chunk of the
  next batch is dispatched; the writer is closed after the last batch, and the
  \<open>Response\<close> is returned only after that, over a stream that already holds every blob.
\<close>

theorem streamVoice_writes_per_batch:
  assumes "1 \<le> concurrency"
    and "\<forall>j<length textChunks. \<not> isl (call j (textChunks ! j))"
  shows "streamVoice call latency textChunks concurrency =
      Some (ReadableResponse (map (\<lambda>j. projr (call j (textChunks ! j))) [0..<length textChunks]),
            concat (map (\<lambda>b. map Dispatch b @ [BatchAwaited] @
                                map (\<lambda>j. Write (projr (call j (textChunks ! j)))) b)
                     (batches_from (nat concurrency) (length textChunks) 0))
            @ [Close, Respond])"
proof -
  let ?blob = "\<lambda>j. projr (call j (textChunks ! j))"
  let ?tr = "concat (map (\<lambda>b. map Dispatch b @ [BatchAwaited] @ map (\<lambda>j. Write (?blob j)) b)
                     (batches_from (nat concurrency) (length textChunks) 0))"
  from assms(1) have "0 < nat concurrency" by simp
  then have "concat (batches_from (nat concurrency) (length textChunks) 0) = [0..<length textChunks]"
    by (rule batches_from_concat)
  with written_batches [of ?blob "batches_from (nat concurrency) (length textChunks) 0"]
  have w: "written (?tr @ [Close]) = map ?blob [0..<length textChunks]"
    by (simp only: written_append written.simps append_Nil2)
  have "pipe_loop call latency textChunks concurrency 0 [] = Some (Inr (), ?tr)"
    using assms by (rule pipe_loop_start_fulfilled)
  then have "pipeChunksToStream call latency textChunks concurrency = Some (Inr (), ?tr @ [Close])"
    by (simp add: pipeChunksToStream_def)
  then have "streamVoice call latency textChunks concurrency =
      Some (ReadableResponse (written (?tr @ [Close])), (?tr @ [Close]) @ [Respond])"
    by (simp add: streamVoice_def)
  then show ?thesis by (simp only: w) simp
qed

text \<open>
  C2: with a concurrency of at least 1, when the call for some chunk \<open>f\<close> fails, both
  pipelines fail with the error of a failed call; every chunk that was dispatched belongs
  to the batch of \<open>f\<close> or an earlier one (chunk \<open>j\<close> belongs to batch
  \<open>j div concurrency\<close>); and in streaming mode the writer is aborted with the error before
  it is closed.
\<close>

theorem batch_failure_stops_pipeline:
  assumes "1 \<le> concurrency" and "f < length chunks" and "isl (call f (chunks ! f))"
  shows "(\<exists>e tr. getVoice call latency chunks concurrency =
            Some (ErrorResponse e 500 ''tts_generation_error'', tr @ [Respond])
          \<and> (\<exists>j<length chunks. call j (chunks ! j) = Inl e)
          \<and> (\<forall>j. Dispatch j \<in> set tr \<longrightarrow> j div nat concurrency \<le> f div nat concurrency))
     \<and> (\<exists>e tr. pipeChunksToStream call latency chunks concurrency =
            Some (Inl e, tr @ [Abort e, Close])
          \<and> streamVoice call latency chunks concurrency =
            Some (ErrorResponse e 500 ''tts_generation_error'', tr @ [Abort e, Close, Respond])
          \<and> (\<exists>j<length chunks. call j (chunks ! j) = Inl e)
          \<and> (\<forall>j. Dispatch j \<in> set tr \<longrightarrow> j div nat concurrency \<le> f div nat concurrency))"
proof
  from assms have "\<exists>e tr. getVoice_loop call latency chunks concurrency 0 [] [] = Some (Inl e, tr)
       \<and> (\<exists>j<length chunks. call j (chunks ! j) = Inl e)
       \<and> (\<forall>j. Dispatch j \<in> set tr \<longrightarrow> j div nat concurrency \<le> f div nat concurrency)"
    by (rule getVoice_loop_start_rejected)
  then obtain e tr where "getVoice_loop call latency chunks concurrency 0 [] [] = Some (Inl e, tr)"
    "\<exists>j<length chunks. call j (chunks ! j) = Inl e"
    "\<forall>j. Dispatch j \<in> set tr \<longrightarrow> j div nat concurrency \<le> f div nat concurrency" by blast
  then show "\<exists>e tr. getVoice call latency chunks concurrency =
            Some (ErrorResponse e 500 ''tts_generation_error'', tr @ [Respond])
          \<and> (\<exists>j<length chunks. call j (chunks ! j) = Inl e)
          \<and> (\<forall>j. Dispatch j \<in> set tr \<longrightarrow> j div nat concurrency \<le> f div nat concurrency)"
    by (simp add: getVoice_def)
next
  from assms have "\<exists>e tr. pipe_loop call latency chunks concurrency 0 [] = Some (Inl e, tr)
       \<and> (\<exists>j<length chunks. call j (chunks ! j) = Inl e)
       \<and> (\<forall>j. Dispatch j \<in> set tr \<longrightarrow> j div nat concurrency \<le> f div nat concurrency)"
    by (rule pipe_loop_start_rejected)
  then obtain e tr where "pipe_loop call latency chunks concurrency 0 [] = Some (Inl e, tr)"
    "\<exists>j<length chunks. call j (chunks ! j) = Inl e"
    "\<forall>j. Dispatch j \<in> set tr \<longrightarrow> j div nat concurrency \<le> f div nat concurrency" by blast
  then show "\<exists>e tr. pipeChunksToStream call latency chunks concurrency =
            Some (Inl e, tr @ [Abort e, Close])
          \<and> streamVoice call latency chunks concurrency =
            Some (ErrorResponse e 500 ''tts_generation_error'', tr @ [Abort e, Close, Respond])
          \<and> (\<exists>j<length chunks. call j (chunks ! j) = Inl e)
          \<and> (\<forall>j. Dispatch j \<in> set tr \<longrightarrow> j div nat concurrency \<le> f div nat concurrency)"
    by (simp add: streamVoice_def pipeChunksToStream_def)
qed













theorem getVoice_ordered_payload_witness:
  "(1::int) \<le> 2
   \<and> getVoice (\<lambda>j chunk. Inr [of_nat j]) (\<lambda>j. 10 - j) [js ''a'', js ''b'', js ''c''] 2 =
       Some (AudioResponse [0, 1, 2],
             [Dispatch 0, Dispatch 1, BatchAwaited, Dispatch 2, BatchAwaited, Respond])"
proof -
  let ?call = "\<lambda>(j::nat) (chunk::jsstring). Inr [of_nat j] :: error + blob"
  let ?chunks = "[js ''a'', js ''b'', js ''c'']"
  have h1: "(1::int) \<le> 2" by simp
  have h2: "\<forall>j<length ?chunks. \<not> isl (?call j (?chunks ! j))" by simp
  have b: "batches_from (nat 2) (length ?chunks) 0 = [[0, 1], [2]]" by code_simp
  have u: "[0..<length ?chunks] = [0, 1, 2]" by code_simp
  from getVoice_ordered_payload [of 2 ?chunks ?call "\<lambda>j. 10 - j", OF h1 h2]
  have "getVoice ?call (\<lambda>j. 10 - j) ?chunks 2 =
      Some (AudioResponse (concat (map (\<lambda>j. projr (?call j (?chunks ! j))) [0, 1, 2])),
            concat (map (\<lambda>b. map Dispatch b @ [BatchAwaited]) [[0, 1], [2]]) @ [Respond])"
    by (simp only: b u)
  then show ?thesis by simp
qed

theorem streamVoice_writes_per_batch_witness:
  "(1::int) \<le> 2
   \<and> streamVoice (\<lambda>j chunk. Inr [of_nat j]) (\<lambda>j. 10 - j) [js ''a'', js ''b'', js ''c''] 2 =
       Some (ReadableResponse [[0], [1], [2]],
             [Dispatch 0, Dispatch 1, BatchAwaited, Write [0], Write [1],
              Dispatch 2, BatchAwaited, Write [2], Close, Respond])"
proof -
  let ?call = "\<lambda>(j::nat) (chunk::jsstring). Inr [of_nat j] :: error + blob"
  let ?chunks = "[js ''a'', js ''b'', js ''c'']"
  have h1: "(1::int) \<le> 2" by simp
  have h2: "\<forall>j<length ?chunks. \<not> isl (?call j (?chunks ! j))" by simp
  have b: "batches_from (nat 2) (length ?chunks) 0 = [[0, 1], [2]]" by code_simp
  have u: "[0..<length ?chunks] = [0, 1, 2]" by code_simp
  from streamVoice_writes_per_batch [of 2 ?chunks ?call "\<lambda>j. 10 - j", OF h1 h2]
  have "streamVoice ?call (\<lambda>j. 10 - j) ?chunks 2 =
      Some (ReadableResponse (map (\<lambda>j. projr (?call j (?chunks ! j))) [0, 1, 2]),
            concat (map (\<lambda>b. map Dispatch b @ [BatchAwaited] @
                                map (\<lambda>j. Write (projr (?call j (?chunks ! j)))) b) [[0, 1], [2]])
            @ [Close, Respond])"
    by (simp only: b u)
  then show ?thesis by simp
qed

text \<open>
  C5, as stated: the streaming \<open>Response\<close> is produced before the final batch resolves.
  On two chunks with concurrency 1 the response is the last event of the run, after both
  batches have been awaited and written and the writer has been closed.
\<close>

theorem streamVoice_response_counterexample:
  "streamVoice (\<lambda>j chunk. Inr [of_nat j]) (\<lambda>j. 0) [js ''a'', js ''b''] 1 =
     Some (ReadableResponse [[0], [1]],
           [Dispatch 0, BatchAwaited, Write [0], Dispatch 1, BatchAwaited, Write [1], Close, Respond])
   \<and> dropWhile (\<lambda>ev. ev \<noteq> Respond)
        [Dispatch 0, BatchAwaited, Write [0], Dispatch 1, BatchAwaited, Write [1], Close, Respond]
      = [Respond]"
  by code_simp

theorem batch_failure_stops_pipeline_witness:
  "(1::int) \<le> 2 \<and> (2::nat) < length [js ''a'', js ''b'', js ''c'', js ''d'', js ''e'']
   \<and> isl ((\<lambda>j chunk. if j = 2 then Inl (TtsApiError 503) else Inr [of_nat j]) 2
            ([js ''a'', js ''b'', js ''c'', js ''d'', js ''e''] ! 2))
   \<and> getVoice (\<lambda>j chunk. if j = 2 then Inl (TtsApiError 503) else Inr [of_nat j]) (\<lambda>j. 0)
        [js ''a'', js ''b'', js ''c'', js ''d'', js ''e''] 2
      = Some (ErrorResponse (TtsApiError 503) 500 ''tts_generation_error'',
              [Dispatch 0, Dispatch 1, BatchAwaited, Dispatch 2, Dispatch 3, BatchAwaited, Respond])
   \<and> streamVoice (\<lambda>j chunk. if j = 2 then Inl (TtsApiError 503) else Inr [of_nat j]) (\<lambda>j. 0)
        [js ''a'', js ''b'', js ''c'', js ''d'', js ''e''] 2
      = Some (ErrorResponse (TtsApiError 503) 500 ''tts_generation_error'',
              [Dispatch 0, Dispatch 1, BatchAwaited, Write [0], Write [1],
               Dispatch 2, Dispatch 3, BatchAwaited, Abort (TtsApiError 503), Close, Respond])"
proof -
  have ev: "getVoice (\<lambda>j chunk. if j = 2 then Inl (TtsApiError 503) else Inr [of_nat j]) (\<lambda>j. 0)
        [js ''a'', js ''b'', js ''c'', js ''d'', js ''e''] 2
      = Some (ErrorResponse (TtsApiError 503) 500 ''tts_generation_error'',
              [Dispatch 0, Dispatch 1, BatchAwaited, Dispatch 2, Dispatch 3, BatchAwaited, Respond])"
    by code_simp
  have es: "streamVoice (\<lambda>j chunk. if j = 2 then Inl (TtsApiError 503) else Inr [of_nat j]) (\<lambda>j. 0)
        [js ''a'', js ''b'', js ''c'', js ''d'', js ''e''] 2
      = Some (ErrorResponse (TtsApiError 503) 500 ''tts_generation_error'',
              [Dispatch 0, Dispatch 1, BatchAwaited, Write [0], Write [1],
               Dispatch 2, Dispatch 3, BatchAwaited, Abort (TtsApiError 503), Close, Respond])"
    by code_simp
  from batch_failure_stops_pipeline [of 2 2 "[js ''a'', js ''b'', js ''c'', js ''d'', js ''e'']"
      "\<lambda>j chunk. if j = 2 then Inl (TtsApiError 503) else Inr [of_nat j]" "\<lambda>j. 0"]
  show ?thesis using ev es by simp
qed

subsection \<open>A concurrency that is not a whole number\<close>

text \<open>
  With the concurrency 0.5 on one chunk the first batch \<open>slice(0, 0.5)\<close> is empty, the
  second \<open>slice(0.5, 1)\<close> is the chunk, and the loop returns.
\<close>

lemma getVoice_num_half_returns: "getVoice_num (\<lambda>j chunk. Inr [of_nat j]) (\<lambda>j. 0) [js ''a''] (1/2) =
   Some (AudioResponse [0], [BatchAwaited, Dispatch 0, BatchAwaited, Respond])"
  by code_simp

lemma to_integer_of_int: "to_integer (of_int k) = k"
  by (simp add: to_integer_def)

lemma batch_indices_num_of_int:
  "batch_indices_num chunks (of_int c) (of_int i) = batch_indices chunks c i"
proof -
  have "to_integer (of_int i + of_int c) = i + c"
    using to_integer_of_int [of "i + c"] by simp
  then show ?thesis
    by (simp add: batch_indices_num_def batch_indices_def to_integer_of_int)
qed

lemma getVoice_loop_num_of_loop:
  assumes "getVoice_loop call latency chunks c i acc tr = Some y"
  shows "getVoice_loop_num call latency chunks (of_int c) (of_int i) acc tr = Some y"
proof (rule getVoice_loop.raw_induct
    [where P = "\<lambda>call latency chunks c i acc tr y.
        getVoice_loop_num call latency chunks (of_int c) (of_int i) acc tr = Some y", OF _ assms])
  fix loop :: "(nat \<Rightarrow> jsstring \<Rightarrow> error + blob) \<Rightarrow> (nat \<Rightarrow> nat) \<Rightarrow> jsstring list \<Rightarrow> int \<Rightarrow> int \<Rightarrow>
      blob list \<Rightarrow> event list \<Rightarrow> ((error + blob list) \<times> event list) option"
    and call latency chunks c i acc tr y
  assume ih: "\<And>call latency chunks c i acc tr y.
      loop call latency chunks c i acc tr = Some y \<Longrightarrow>
      getVoice_loop_num call latency chunks (of_int c) (of_int i) acc tr = Some y"
    and body: "(if i < int (length chunks)
      then case await_batch call latency chunks (batch_indices chunks c i) of
           None \<Rightarrow> None
         | Some (Inl e) \<Rightarrow> Some (Inl e, tr @ map Dispatch (batch_indices chunks c i) @ [BatchAwaited])
         | Some (Inr audioBlobs) \<Rightarrow>
             loop call latency chunks c (i + c) (acc @ audioBlobs)
               (tr @ map Dispatch (batch_indices chunks c i) @ [BatchAwaited])
      else Some (Inr acc, tr)) = Some y"
  have cond: "(of_int i < (of_nat (length chunks) :: rat)) \<longleftrightarrow> i < int (length chunks)"
    by (metis of_int_less_iff of_int_of_nat_eq)
  have step: "(of_int i :: rat) + of_int c = of_int (i + c)" by simp
  show "getVoice_loop_num call latency chunks (of_int c) (of_int i) acc tr = Some y"
  proof (cases "i < int (length chunks)")
    case False
    with body cond show ?thesis by (subst getVoice_loop_num.simps) simp
  next
    case True
    show ?thesis
    proof (cases "await_batch call latency chunks (batch_indices chunks c i)")
      case None
      with body True show ?thesis by simp
    next
      case (Some r)
      show ?thesis
      proof (cases r)
        case (Inl e)
        with Some body True cond show ?thesis
          by (subst getVoice_loop_num.simps) (simp add: batch_indices_num_of_int)
      next
        case (Inr blobs)
        with Some body True have "loop call latency chunks c (i + c) (acc @ blobs)
            (tr @ map Dispatch (batch_indices chunks c i) @ [BatchAwaited]) = Some y" by simp
        from ih [OF this] Inr Some True cond show ?thesis
          by (subst getVoice_loop_num.simps) (simp only: step batch_indices_num_of_int, simp)
      qed
    qed
  qed
qed

lemma getVoice_loop_of_loop_num:
  assumes "getVoice_loop_num call latency chunks c' i' acc tr = Some y"
  shows "\<forall>c i. c' = of_int c \<and> i' = of_int i \<longrightarrow>
           getVoice_loop call latency chunks c i acc tr = Some y"
proof (rule getVoice_loop_num.raw_induct
    [where P = "\<lambda>call latency chunks c' i' acc tr y.
        \<forall>c i. c' = of_int c \<and> i' = of_int i \<longrightarrow>
          getVoice_loop call latency chunks c i acc tr = Some y", OF _ assms])
  fix loop :: "(nat \<Rightarrow> jsstring \<Rightarrow> error + blob) \<Rightarrow> (nat \<Rightarrow> nat) \<Rightarrow> jsstring list \<Rightarrow> rat \<Rightarrow> rat \<Rightarrow>
      blob list \<Rightarrow> event list \<Rightarrow> ((error + blob list) \<times> event list) option"
    and call latency chunks c' i' acc tr y
  assume ih: "\<And>call latency chunks c' i' acc tr y.
      loop call latency chunks c' i' acc tr = Some y \<Longrightarrow>
      \<forall>c i. c' = of_int c \<and> i' = of_int i \<longrightarrow>
        getVoice_loop call latency chunks c i acc tr = Some y"
    and body: "(if i' < of_nat (length chunks)
      then case await_batch call latency chunks (batch_indices_num chunks c' i') of
           None \<Rightarrow> None
         | Some (Inl e) \<Rightarrow> Some (Inl e, tr @ map Dispatch (batch_indices_num chunks c' i') @ [BatchAwaited])
         | Some (Inr audioBlobs) \<Rightarrow>
             loop call latency chunks c' (i' + c') (acc @ audioBlobs)
               (tr @ map Dispatch (batch_indices_num chunks c' i') @ [BatchAwaited])
      else Some (Inr acc, tr)) = Some y"
  show "\<forall>c i. c' = of_int c \<and> i' = of_int i \<longrightarrow>
          getVoice_loop call latency chunks c i acc tr = Some y"
  proof (intro allI impI)
    fix c i :: int
    assume "c' = of_int c \<and> i' = of_int i"
    then have c': "c' = of_int c" and i': "i' = of_int i" by simp_all
    have cond: "(i' < of_nat (length chunks)) \<longleftrightarrow> i < int (length chunks)"
      unfolding i' by (metis of_int_less_iff of_int_of_nat_eq)
    have b: "batch_indices_num chunks c' i' = batch_indices chunks c i"
      unfolding c' i' by (rule batch_indices_num_of_int)
    have step: "i' + c' = of_int (i + c)" unfolding c' i' by simp
    show "getVoice_loop call latency chunks c i acc tr = Some y"
    proof (cases "i < int (length chunks)")
      case False
      with body cond show ?thesis by (subst getVoice_loop.simps) simp
    next
      case True
      show ?thesis
      proof (cases "await_batch call latency chunks (batch_indices chunks c i)")
        case None
        with body True cond b show ?thesis by simp
      next
        case (Some r)
        show ?thesis
        proof (cases r)
          case (Inl e)
          with Some body True cond b show ?thesis
            by (subst getVoice_loop.simps) simp
        next
          case (Inr blobs)
          with Some body True cond b have "loop call latency chunks c' (i' + c') (acc @ blobs)
              (tr @ map Dispatch (batch_indices chunks c i) @ [BatchAwaited]) = Some y" by simp
          from ih [OF this] c' step
          have "getVoice_loop call latency chunks c (i + c) (acc @ blobs)
              (tr @ map Dispatch (batch_indices chunks c i) @ [BatchAwaited]) = Some y" by blast
          with Inr Some True show ?thesis
            by (subst getVoice_loop.simps) simp
        qed
      qed
    qed
  qed
qed

lemma getVoice_loop_num_of_int:
  "getVoice_loop_num call latency chunks (of_int c) (of_int i) acc tr =
   getVoice_loop call latency chunks c i acc tr"
proof (cases "getVoice_loop call latency chunks c i acc tr")
  case (Some y)
  then show ?thesis by (simp add: getVoice_loop_num_of_loop)
next
  case None
  show ?thesis
  proof (cases "getVoice_loop_num call latency chunks (of_int c) (of_int i) acc tr")
    case (Some y)
    from getVoice_loop_of_loop_num [OF this] None show ?thesis by simp
  next
    case None': None
    with None show ?thesis by simp
  qed
qed

lemma getVoice_num_of_int:
  "getVoice_num call latency chunks (of_int c) = getVoice call latency chunks c"
  using getVoice_loop_num_of_int [of call latency chunks c 0 "[]" "[]"]
  by (simp add: getVoice_num_def getVoice_def)

end
